theory Spec2Isabelle
  imports Complex_Main "HOL-Library.Word" "HOL-Library.Signed_Division"
begin

section \<open>BoatFanControl: the two firmware variants\<close>

text \<open>
  The repository holds two sketches of the same controller:
  \<^item> \<^verbatim>\<open>Software/BoatFanControl/BoatFanControl.ino\<close>: five retained samples per channel,
    auto-resume timer, proportional fan ramp. Its definitions carry the suffix \<open>5\<close>.
  \<^item> \<^verbatim>\<open>Code/BoatFanControl/BoatFanControl.ino\<close>: ten retained samples per channel, no
    timer. Its definitions carry the suffix \<open>10\<close>.
  Both are modelled as built by default, that is with \<^verbatim>\<open>DEVEL\<close> and \<^verbatim>\<open>BENCH\<close>
  undefined. The target is an 8-bit AVR (DigiSpark): \<^verbatim>\<open>byte\<close> is 8 bits wide,
  \<^verbatim>\<open>unsigned int\<close> 16 bits, \<^verbatim>\<open>unsigned long\<close> 32 bits, and arithmetic on them wraps.
\<close>

type_synonym byte = "8 word"
type_synonym uint = "16 word"
type_synonym ulong = "32 word"

datatype powerstates = off | low | high

subsection \<open>Constants\<close>

text \<open>
  The macros are untyped literals in the source and take the type of the expression they
  stand in. Those with the same value in both sketches are declared once.
\<close>

named_theorems fw_defs

definition FAN_OFF :: "'a::zero" where [fw_defs]: "FAN_OFF = 0"
definition FAN_LOW5 :: "'a::numeral" where [fw_defs]: "FAN_LOW5 = 95"
definition FAN_LOW10 :: "'a::numeral" where [fw_defs]: "FAN_LOW10 = 96"
definition FAN_HIGH :: "'a::numeral" where [fw_defs]: "FAN_HIGH = 255"
definition LED_OFF :: "'a::zero" where [fw_defs]: "LED_OFF = 0"
definition LED_LOW :: "'a::numeral" where [fw_defs]: "LED_LOW = 10"
definition LED_HIGH :: "'a::numeral" where [fw_defs]: "LED_HIGH = 255"
definition VIN_LOW :: "'a::numeral" where [fw_defs]: "VIN_LOW = 222"
definition VIN_GOOD :: "'a::numeral" where [fw_defs]: "VIN_GOOD = 235"
definition TEMP_TRIGGER :: "'a::numeral" where [fw_defs]: "TEMP_TRIGGER = 28"
definition HUMI_TRIGGER :: "'a::numeral" where [fw_defs]: "HUMI_TRIGGER = 70"
definition TEMP_RISE :: "'a::numeral" where [fw_defs]: "TEMP_RISE = 40"
definition HUMI_RISE :: "'a::numeral" where [fw_defs]: "HUMI_RISE = 8"
definition RESUMETIME :: "'a::numeral" where [fw_defs]: "RESUMETIME = 10800000"
definition CYCLETIME5 :: "'a::numeral" where [fw_defs]: "CYCLETIME5 = 20000"
definition CYCLETIME10 :: "'a::numeral" where [fw_defs]: "CYCLETIME10 = 10000"

subsection \<open>The fan decision\<close>

text \<open>
  Lines 324 to 354 of the five-sample sketch. \<open>tempAvg\<close>, \<open>humiAvg\<close>, \<open>voltAvg\<close>,
  \<open>fanT\<close> and \<open>fanH\<close> are \<^verbatim>\<open>unsigned int\<close>, so the ramp is computed modulo \<open>2 ^ 16\<close>;
  the assignment to the \<^verbatim>\<open>byte fan\<close> keeps the low eight bits.
\<close>

definition decide5 :: "uint \<Rightarrow> uint \<Rightarrow> uint \<Rightarrow> powerstates \<Rightarrow> byte" where
  "decide5 tempAvg humiAvg voltAvg p =
     (if voltAvg < VIN_LOW \<or> p = off then 0
      else if voltAvg < VIN_GOOD \<or> p = low then
        (if tempAvg > TEMP_TRIGGER \<or> humiAvg > HUMI_TRIGGER then FAN_LOW5 else FAN_OFF)
      else
        (let fanT = (if tempAvg \<ge> TEMP_TRIGGER
                     then min (FAN_LOW5 + ((tempAvg - TEMP_TRIGGER) * TEMP_RISE)) FAN_HIGH
                     else 0);
             fanH = (if humiAvg \<ge> HUMI_TRIGGER
                     then min (FAN_LOW5 + ((humiAvg - HUMI_TRIGGER) * HUMI_RISE)) FAN_HIGH
                     else 0)
         in ucast (max fanT fanH)))"

text \<open>
  Lines 258 to 264 of the ten-sample sketch. The averages are computed there but the
  decision reads only the voltage and the power mode.
\<close>

definition decide10 :: "uint \<Rightarrow> uint \<Rightarrow> uint \<Rightarrow> powerstates \<Rightarrow> byte" where
  "decide10 tempAvg humiAvg voltAvg p =
     (if voltAvg < VIN_LOW \<or> p = off then 0
      else if voltAvg < VIN_GOOD \<or> p = low then FAN_LOW10
      else FAN_HIGH)"

subsection \<open>Arduino macros\<close>

text \<open>
  \<^verbatim>\<open>constrain(amt,low,high)\<close> is \<^verbatim>\<open>((amt)<(low)?(low):((amt)>(high)?(high):(amt)))\<close>.
  The sensor library and the ADC are not part of the repository; their readings enter the
  model as integers.
\<close>

definition constrain :: "int \<Rightarrow> int \<Rightarrow> int \<Rightarrow> int" where
  "constrain amt lo hi = (if amt < lo then lo else if amt > hi then hi else amt)"

text \<open>
  \<^verbatim>\<open>round(x)\<close> is \<^verbatim>\<open>((x)>=0?(long)((x)+0.5):(long)((x)-0.5))\<close>; the cast truncates
  towards zero. The argument is the single-precision quotient of an integer below
  \<open>2 ^ 16\<close> by 3. That quotient is an integer, or lies a third away from one, while the
  rounding error of the division and of the addition of 0.5 stays below \<open>2 ^ -8\<close>; so the
  cast yields the same integer on the exact quotient, and the model computes with rationals.
\<close>

definition arduino_round :: "rat \<Rightarrow> int" where
  "arduino_round x = (if x \<ge> 0 then \<lfloor>x + 1 / 2\<rfloor> else \<lceil>x - 1 / 2\<rceil>)"

subsection \<open>Trimmed averages\<close>

text \<open>
  The scan of lines 301 to 315 (five-sample sketch) and 230 to 249 (ten-sample sketch),
  for one channel: the accumulators are the total, the maximum and the minimum, all
  \<^verbatim>\<open>unsigned int\<close>. The arrays have a fixed size in the source and are lists here, so
  the scan runs over the whole list; a \<^verbatim>\<open>byte\<close> sample is widened before it is added or
  compared.
\<close>

fun totals :: "uint list \<Rightarrow> uint \<times> uint \<times> uint \<Rightarrow> uint \<times> uint \<times> uint" where
  "totals [] acc = acc"
| "totals (x # xs) (tot, mx, mn) =
     totals xs (tot + x, (if x > mx then x else mx), (if x < mn then x else mn))"

text \<open>\<^verbatim>\<open>ttot = ttot - tmax - tmin\<close>, with the minimum starting at \<open>min0\<close> (255 or 65534).\<close>

definition trimmed_total :: "uint \<Rightarrow> uint list \<Rightarrow> uint" where
  "trimmed_total min0 xs = (case totals xs (0, 0, min0) of (tot, mx, mn) \<Rightarrow> tot - mx - mn)"

text \<open>\<^verbatim>\<open>round(float(ttot) / 3)\<close>, assigned to an \<^verbatim>\<open>unsigned int\<close>.\<close>

definition average5 :: "uint \<Rightarrow> uint list \<Rightarrow> uint" where
  "average5 min0 xs = word_of_int (arduino_round (of_nat (unat (trimmed_total min0 xs)) / 3))"

text \<open>
  \<^verbatim>\<open>ceil(tt / 8)\<close>: both operands of the division are integers, so it truncates, and
  \<^verbatim>\<open>ceil\<close> of the resulting whole number changes nothing.
\<close>

definition average10 :: "uint \<Rightarrow> uint list \<Rightarrow> uint" where
  "average10 min0 xs = trimmed_total min0 xs div 8"

subsection \<open>State, inputs and outputs of a cycle\<close>

text \<open>
  The globals shared by both sketches; the source's \<^verbatim>\<open>power\<close> is \<open>power_mode\<close> here.
  \<open>index\<close> is a C \<^verbatim>\<open>int\<close> that never leaves \<open>0..9\<close>.
\<close>

record ctl =
  t :: "byte list"
  h :: "byte list"
  v :: "uint list"
  power_mode :: powerstates
  lastRead :: ulong
  index :: int
  fan :: byte
  led :: byte

record state5 = ctl +
  lastButton :: ulong

record state10 = ctl +
  button :: bool

text \<open>
  What one pass of \<^verbatim>\<open>loop()\<close> reads from outside: whether the wait loop saw the button,
  the sensor's temperature, humidity and status string, the ADC value, and the value of
  \<^verbatim>\<open>millis()\<close> at each of its calls after the wait loop (line 239, line 258 and line 298
  of the five-sample sketch; line 226 of the ten-sample sketch).
\<close>

record inputs =
  pressed :: bool
  dht_temperature :: int
  dht_humidity :: int
  dht_status :: string
  adc_vin :: int
  millis_read :: ulong

record inputs5 = inputs +
  millis_resume :: ulong
  millis_button :: ulong

text \<open>What a pass writes: the calls of \<^verbatim>\<open>flashFast(f,p)\<close> and of \<^verbatim>\<open>analogWrite\<close>, in order.\<close>

datatype event = FlashFast byte byte | LedWrite byte | FanWrite byte

text \<open>A store outside the five (or ten) slots of the arrays is undefined in C.\<close>

datatype fault = OutOfBounds

subsection \<open>The five-sample sketch\<close>

text \<open>Line 239: the condition under which the resume timer sets \<^verbatim>\<open>button\<close>.\<close>

definition auto_resume :: "state5 \<Rightarrow> ulong \<Rightarrow> bool" where
  "auto_resume s now = (power_mode s \<noteq> high \<and> now - lastButton s > RESUMETIME)"

text \<open>Lines 243 to 259: the body of \<^verbatim>\<open>if (button)\<close>.\<close>

definition process_button5 :: "ulong \<Rightarrow> state5 \<Rightarrow> event list \<times> state5" where
  "process_button5 now s =
     (let (ev, s') =
        (case power_mode s of
           off \<Rightarrow> ([FlashFast 4 LED_HIGH], s\<lparr>power_mode := low, led := LED_LOW\<rparr>)
         | low \<Rightarrow> ([FlashFast 6 LED_HIGH], s\<lparr>power_mode := high, led := LED_HIGH\<rparr>)
         | high \<Rightarrow> ([FlashFast 2 LED_HIGH], s\<lparr>power_mode := off, led := LED_OFF\<rparr>))
      in (ev, s'\<lparr>lastButton := now\<rparr>))"

text \<open>Lines 273 to 289: take the readings and, when the sensor reports OK, store them.\<close>

definition readings5 :: "'a inputs_scheme \<Rightarrow> state5 \<Rightarrow> fault + event list \<times> state5" where
  "readings5 i s =
     (let temp = (word_of_int (constrain (dht_temperature i) 0 40) :: byte);
          humi = (word_of_int (constrain (dht_humidity i) 0 100) :: byte);
          volt = (word_of_int (constrain (adc_vin i) 100 350) :: uint)
      in if dht_status i \<noteq> ''OK'' then Inr ([FlashFast 10 (max (led s) LED_LOW)], s)
         else
           (let idx = (index s + 1) smod 5
            in if 0 \<le> idx \<and> idx < 5
               then Inr ([], s\<lparr>index := idx,
                                t := (t s)[nat idx := temp],
                                h := (h s)[nat idx := humi],
                                v := (v s)[nat idx := volt]\<rparr>)
               else Inl OutOfBounds))"

text \<open>Lines 301 to 357: the averages, the decision and the write to the fan pin.\<close>

definition drive5 :: "state5 \<Rightarrow> event list \<times> state5" where
  "drive5 s =
     (let tempAvg = average5 255 (map ucast (t s));
          humiAvg = average5 255 (map ucast (h s));
          voltAvg = average5 65534 (v s);
          s' = s\<lparr>fan := decide5 tempAvg humiAvg voltAvg (power_mode s)\<rparr>
      in ([FanWrite (fan s')], s'))"

text \<open>
  One pass of \<^verbatim>\<open>loop()\<close>, from the end of the wait loop. The wait loop polls the
  button until a press or the cycle time ends it; of what it does only the local
  \<^verbatim>\<open>button\<close> outlives it (its write to \<^verbatim>\<open>lastRead\<close> only ends the wait, and line 298
  overwrites it). The delays are left out: they change no variable.
\<close>

definition loop5 :: "inputs5 \<Rightarrow> state5 \<Rightarrow> fault + event list \<times> state5" where
  "loop5 i s =
     (let button = pressed i;
          button = (if auto_resume s (millis_resume i) then True else button);
          (ev1, s1) = (if button then process_button5 (millis_button i) s else ([], s))
      in case readings5 i s1 of
           Inl e \<Rightarrow> Inl e
         | Inr (ev2, s2) \<Rightarrow>
             (let s3 = s2\<lparr>lastRead := millis_read i\<rparr>;
                  (ev3, s4) = drive5 s3
              in Inr (ev1 @ ev2 @ [LedWrite (led s2)] @ ev3, s4)))"

text \<open>
  The globals when \<^verbatim>\<open>setup()\<close> returns; \<open>temp\<close>, \<open>humi\<close> and \<open>vin\<close> are the readings of
  the last pass of its \<^verbatim>\<open>do ... while\<close>, the first one with status OK.
\<close>

definition setup5 :: "int \<Rightarrow> int \<Rightarrow> int \<Rightarrow> state5" where
  "setup5 temp humi vin =
     \<lparr>t = replicate 5 (word_of_int (constrain temp 0 40)),
      h = replicate 5 (word_of_int (constrain humi 0 100)),
      v = replicate 5 (word_of_int (constrain vin 0 350)),
      power_mode = high, lastRead = - CYCLETIME5, index = 0, fan = 0, led = 255,
      lastButton = 0\<rparr>"

text \<open>Consecutive passes; the first fault ends the run.\<close>

fun run5 :: "inputs5 list \<Rightarrow> state5 \<Rightarrow> fault + state5" where
  "run5 [] s = Inr s"
| "run5 (i # is) s = (case loop5 i s of Inl e \<Rightarrow> Inl e | Inr (ev, s') \<Rightarrow> run5 is s')"

text \<open>
  The states the sketch can be in at the top of \<^verbatim>\<open>loop()\<close>, each with the value of
  \<^verbatim>\<open>millis()\<close> that was recorded when the power mode last changed (0 before any change:
  the mode is set when the clock starts).
\<close>

inductive reach5 :: "state5 \<Rightarrow> ulong \<Rightarrow> bool" where
  boot: "reach5 (setup5 temp humi vin) 0"
| pass: "reach5 s g \<Longrightarrow> loop5 i s = Inr (ev, s') \<Longrightarrow>
         reach5 s' (if power_mode s' \<noteq> power_mode s then millis_button i else g)"

subsection \<open>The ten-sample sketch\<close>

text \<open>Lines 162 to 168: the wait loop raises the global \<^verbatim>\<open>button\<close> when it sees the pin low.\<close>

definition poll10 :: "inputs \<Rightarrow> state10 \<Rightarrow> state10" where
  "poll10 i s = (if pressed i then (if button s = False then s\<lparr>button := True\<rparr> else s) else s)"

text \<open>Lines 177 to 194.\<close>

definition process_button10 :: "state10 \<Rightarrow> event list \<times> state10" where
  "process_button10 s =
     (let (ev, s') =
        (if button s then
           (case power_mode s of
              off \<Rightarrow> ([FlashFast 2 LED_HIGH], s\<lparr>power_mode := low, led := LED_LOW\<rparr>)
            | low \<Rightarrow> ([FlashFast 5 LED_HIGH], s\<lparr>power_mode := high, led := LED_HIGH\<rparr>)
            | high \<Rightarrow> ([FlashFast 1 LED_HIGH], s\<lparr>power_mode := off, led := LED_OFF\<rparr>))
         else ([], s))
      in (ev, s'\<lparr>button := False\<rparr>))"

text \<open>Lines 206 to 217.\<close>

definition readings10 :: "inputs \<Rightarrow> state10 \<Rightarrow> fault + event list \<times> state10" where
  "readings10 i s =
     (let temp = (word_of_int (constrain (dht_temperature i) 0 40) :: byte);
          humi = (word_of_int (constrain (dht_humidity i) 0 100) :: byte);
          volt = (word_of_int (constrain (adc_vin i) 0 350) :: uint)
      in if dht_status i \<noteq> ''OK'' then Inr ([FlashFast 3 (led s)], s)
         else
           (let idx = (index s + 1) smod 10
            in if 0 \<le> idx \<and> idx < 10
               then Inr ([], s\<lparr>index := idx,
                                t := (t s)[nat idx := temp],
                                h := (h s)[nat idx := humi],
                                v := (v s)[nat idx := volt]\<rparr>)
               else Inl OutOfBounds))"

text \<open>Lines 230 to 266.\<close>

definition drive10 :: "state10 \<Rightarrow> event list \<times> state10" where
  "drive10 s =
     (let tempAvg = average10 255 (map ucast (t s));
          humiAvg = average10 255 (map ucast (h s));
          voltAvg = average10 65534 (v s);
          s' = s\<lparr>fan := decide10 tempAvg humiAvg voltAvg (power_mode s)\<rparr>
      in ([FanWrite (fan s')], s'))"

text \<open>One pass of \<^verbatim>\<open>loop()\<close> of the ten-sample sketch; \<open>poll10\<close> stands for its wait loop.\<close>

definition loop10 :: "inputs \<Rightarrow> state10 \<Rightarrow> fault + event list \<times> state10" where
  "loop10 i s =
     (let s0 = poll10 i s;
          (ev1, s1) = process_button10 s0
      in case readings10 i s1 of
           Inl e \<Rightarrow> Inl e
         | Inr (ev2, s2) \<Rightarrow>
             (let s3 = s2\<lparr>lastRead := millis_read i\<rparr>;
                  (ev3, s4) = drive10 s3
              in Inr (ev1 @ ev2 @ [LedWrite (led s2)] @ ev3, s4)))"

definition setup10 :: "int \<Rightarrow> int \<Rightarrow> int \<Rightarrow> state10" where
  "setup10 temp humi vin =
     \<lparr>t = replicate 10 (word_of_int (constrain temp 0 40)),
      h = replicate 10 (word_of_int (constrain humi 0 100)),
      v = replicate 10 (word_of_int (constrain vin 0 350)),
      power_mode = high, lastRead = - CYCLETIME10, index = 0, fan = 0, led = 255,
      button = False\<rparr>"

fun run10 :: "inputs list \<Rightarrow> state10 \<Rightarrow> fault + state10" where
  "run10 [] s = Inr s"
| "run10 (i # is) s = (case loop10 i s of Inl e \<Rightarrow> Inl e | Inr (ev, s') \<Rightarrow> run10 is s')"

inductive reach10 :: "state10 \<Rightarrow> bool" where
  boot10: "reach10 (setup10 temp humi vin)"
| pass10: "reach10 s \<Longrightarrow> loop10 i s = Inr (ev, s') \<Longrightarrow> reach10 s'"

subsection \<open>The trimmed average as the specification words it\<close>

text \<open>
  Rounding to the nearest integer, halves away from zero, and the quotient of the sum less
  one maximum and one minimum by the number of samples less two, over exact rationals.
  These two definitions follow the specification, not the source.
\<close>

definition round_half_away :: "rat \<Rightarrow> int" where
  "round_half_away q = (if q < 0 then - \<lfloor>- q + 1 / 2\<rfloor> else \<lfloor>q + 1 / 2\<rfloor>)"

definition spec_trimmed_average :: "nat list \<Rightarrow> int" where
  "spec_trimmed_average xs =
     round_half_away
       ((of_nat (sum_list xs) - of_nat (Max (set xs)) - of_nat (Min (set xs)))
          / (of_nat (length xs) - 2))"

subsection \<open>The mode rotation as the specification words it\<close>

text \<open>The fixed cycle Off, Low, High, Off of the specification, one step.\<close>

definition rotate_mode :: "powerstates \<Rightarrow> powerstates" where
  "rotate_mode p = (case p of off \<Rightarrow> low | low \<Rightarrow> high | high \<Rightarrow> off)"

section \<open>Auxiliary facts\<close>

subsection \<open>Sums, maxima and minima of lists\<close>

lemma Min_le_Max_list:
  fixes xs :: "nat list"
  assumes "xs \<noteq> []"
  shows "Min (set xs) \<le> Max (set xs)"
proof -
  have "hd xs \<in> set xs" using assms by simp
  then have "Min (set xs) \<le> hd xs" "hd xs \<le> Max (set xs)" by simp_all
  then show ?thesis by (rule order_trans)
qed

lemma sum_list_upper:
  fixes xs :: "nat list"
  shows "xs \<noteq> [] \<Longrightarrow> sum_list xs \<le> (length xs - 1) * Max (set xs) + Min (set xs)"
proof (induction xs rule: list_nonempty_induct)
  case (single x)
  then show ?case by simp
next
  case (cons x xs)
  let ?M = "Max (set xs)" and ?m = "Min (set xs)" and ?n = "length xs - 1"
  have mM: "?m \<le> ?M" using cons.hyps by (rule Min_le_Max_list)
  have len: "(length (x # xs) - 1) * k = k + ?n * k" for k
    using cons.hyps by (cases xs) auto
  have "?n * ?M \<le> ?n * max x ?M" by (rule mult_le_mono2) simp
  moreover have "x + ?m \<le> max x ?M + min x ?m" using mM by (auto simp: max_def min_def)
  ultimately have "x + sum_list xs \<le> max x ?M + ?n * max x ?M + min x ?m"
    using cons.IH by linarith
  then show ?case
    using cons.hyps by (simp only: len) simp
qed

lemma sum_list_lower:
  fixes xs :: "nat list"
  shows "xs \<noteq> [] \<Longrightarrow> Max (set xs) + (length xs - 1) * Min (set xs) \<le> sum_list xs"
proof (induction xs rule: list_nonempty_induct)
  case (single x)
  then show ?case by simp
next
  case (cons x xs)
  let ?M = "Max (set xs)" and ?m = "Min (set xs)" and ?n = "length xs - 1"
  have mM: "?m \<le> ?M" using cons.hyps by (rule Min_le_Max_list)
  have len: "(length (x # xs) - 1) * k = k + ?n * k" for k
    using cons.hyps by (cases xs) auto
  have "?n * min x ?m \<le> ?n * ?m" by (rule mult_le_mono2) simp
  moreover have "max x ?M + min x ?m \<le> x + ?M" using mM by (auto simp: max_def min_def)
  ultimately have "max x ?M + (min x ?m + ?n * min x ?m) \<le> x + sum_list xs"
    using cons.IH by linarith
  then show ?case
    using cons.hyps by (simp only: len) simp
qed

lemma totals_fold:
  "totals xs (tot, mx, mn) = (tot + sum_list xs, fold max xs mx, fold min xs mn)"
  by (induction xs arbitrary: tot mx mn) (auto simp: max_def min_def add.assoc)

lemma fold_max_zero:
  fixes xs :: "uint list"
  shows "xs \<noteq> [] \<Longrightarrow> fold max xs 0 = Max (set xs)"
proof -
  assume ne: "xs \<noteq> []"
  have "fold max xs 0 = Max (set (0 # xs))" by (simp only: Max.set_eq_fold)
  also have "\<dots> = max 0 (Max (set xs))" using ne by simp
  also have "\<dots> = Max (set xs)" by (simp add: max_def)
  finally show ?thesis .
qed

lemma fold_min_start:
  fixes xs :: "uint list"
  assumes "xs \<noteq> []" "\<forall>x \<in> set xs. x \<le> min0"
  shows "fold min xs min0 = Min (set xs)"
proof -
  have "Min (set xs) \<in> set xs" using assms(1) by (intro Min_in) auto
  then have le: "Min (set xs) \<le> min0" using assms(2) by blast
  have "fold min xs min0 = Min (set (min0 # xs))" by (simp only: Min.set_eq_fold)
  also have "\<dots> = min min0 (Min (set xs))" using assms(1) by simp
  also have "\<dots> = Min (set xs)" using le by (simp add: min_def)
  finally show ?thesis .
qed

lemma unat_sum_list:
  fixes xs :: "uint list"
  shows "sum_list (map unat xs) < 65536 \<Longrightarrow> unat (sum_list xs) = sum_list (map unat xs)"
proof (induction xs)
  case Nil
  then show ?case by simp
next
  case (Cons x xs)
  then have "unat (sum_list xs) = sum_list (map unat xs)" by simp
  moreover have "unat x + sum_list (map unat xs) < 2 ^ LENGTH(16)" using Cons.prems by simp
  ultimately show ?case by (simp add: unat_add_lem [THEN iffD1])
qed

lemma unat_Max:
  fixes xs :: "uint list"
  shows "xs \<noteq> [] \<Longrightarrow> unat (Max (set xs)) = Max (set (map unat xs))"
  using mono_Max_commute [of unat "set xs"] by (simp add: mono_def word_le_nat_alt)

lemma unat_Min:
  fixes xs :: "uint list"
  shows "xs \<noteq> [] \<Longrightarrow> unat (Min (set xs)) = Min (set (map unat xs))"
  using mono_Min_commute [of unat "set xs"] by (simp add: mono_def word_le_nat_alt)

lemma trimmed_total_unat:
  fixes xs :: "uint list"
  assumes len: "2 \<le> length xs"
    and le: "\<forall>x \<in> set xs. x \<le> min0"
    and sm: "sum_list (map unat xs) < 65536"
  shows "unat (trimmed_total min0 xs) =
           sum_list (map unat xs) - Max (set (map unat xs)) - Min (set (map unat xs))"
proof -
  let ?ys = "map unat xs"
  have ne: "xs \<noteq> []" "?ys \<noteq> []" using len by auto
  have "Max (set ?ys) + (length ?ys - 1) * Min (set ?ys) \<le> sum_list ?ys"
    using ne(2) by (rule sum_list_lower)
  moreover have "1 * Min (set ?ys) \<le> (length ?ys - 1) * Min (set ?ys)"
    by (rule mult_le_mono1) (use len in simp)
  ultimately have low: "Max (set ?ys) + Min (set ?ys) \<le> sum_list ?ys" by linarith
  have tt: "trimmed_total min0 xs = sum_list xs - Max (set xs) - Min (set xs)"
    using ne(1) le by (simp add: trimmed_total_def totals_fold fold_max_zero fold_min_start)
  have s: "unat (sum_list xs) = sum_list ?ys" using sm by (rule unat_sum_list)
  have M: "unat (Max (set xs)) = Max (set ?ys)" using ne(1) by (rule unat_Max)
  have m: "unat (Min (set xs)) = Min (set ?ys)" using ne(1) by (rule unat_Min)
  have 1: "unat (sum_list xs - Max (set xs)) = sum_list ?ys - Max (set ?ys)"
    using low by (simp add: unat_sub word_le_nat_alt s M)
  have 2: "unat (sum_list xs - Max (set xs) - Min (set xs)) = sum_list ?ys - Max (set ?ys) - Min (set ?ys)"
    using low by (simp add: unat_sub word_le_nat_alt 1 m)
  show ?thesis by (simp only: tt 2)
qed

subsection \<open>The five-sample average\<close>

lemma arduino_round_third: "arduino_round (of_nat k / 3) = int ((k + 1) div 3)"
proof -
  have "(of_nat k / 3 + 1 / 2 :: rat) = of_nat (2 * k + 3) / of_nat 6"
    by (simp add: field_simps)
  then have "\<lfloor>of_nat k / 3 + 1 / 2 :: rat\<rfloor> = int ((2 * k + 3) div 6)"
    by (simp only: floor_divide_of_nat_eq)
  moreover have "(2 * k + 3) div 6 = (k + 1) div 3" by presburger
  ultimately show ?thesis by (simp add: arduino_round_def)
qed

lemma average5_div: "average5 min0 xs = of_nat ((unat (trimmed_total min0 xs) + 1) div 3)"
  unfolding average5_def arduino_round_third by simp

lemma sum_list_le_length:
  fixes ys :: "nat list"
  shows "\<forall>y \<in> set ys. y \<le> b \<Longrightarrow> sum_list ys \<le> length ys * b"
  by (induction ys) auto

lemma average5_spec:
  fixes xs :: "uint list"
  assumes len: "length xs = 5"
    and le: "\<forall>x \<in> set xs. x \<le> min0"
    and sm: "sum_list (map unat xs) < 65536"
  shows "uint (average5 min0 xs) = spec_trimmed_average (map unat xs)"
    and "unat (average5 min0 xs) \<le> Max (set (map unat xs))"
    and "Min (set (map unat xs)) \<le> unat (average5 min0 xs)"
proof -
  let ?ys = "map unat xs"
  define k where "k = sum_list ?ys - Max (set ?ys) - Min (set ?ys)"
  have ne: "?ys \<noteq> []" using len by auto
  have k: "unat (trimmed_total min0 xs) = k"
    unfolding k_def using le sm by (intro trimmed_total_unat) (simp_all add: len)
  have up: "sum_list ?ys \<le> 4 * Max (set ?ys) + Min (set ?ys)"
    using sum_list_upper [OF ne] by (simp add: len)
  have lo: "Max (set ?ys) + 4 * Min (set ?ys) \<le> sum_list ?ys"
    using sum_list_lower [OF ne] by (simp add: len)
  have kb: "k \<le> 3 * Max (set ?ys)" "3 * Min (set ?ys) \<le> k"
    using up lo unfolding k_def by linarith+
  have small: "(k + 1) div 3 < 65536"
    using sm unfolding k_def by linarith
  have avg: "unat (average5 min0 xs) = (k + 1) div 3"
    using small by (simp add: average5_div k unat_of_nat)
  show "unat (average5 min0 xs) \<le> Max (set ?ys)"
    unfolding avg using kb(1) by linarith
  show "Min (set ?ys) \<le> unat (average5 min0 xs)"
    unfolding avg using kb(2) by linarith
  have "(rat_of_nat (sum_list ?ys) - of_nat (Max (set ?ys)) - of_nat (Min (set ?ys))) = of_nat k"
    unfolding k_def using lo by (simp add: of_nat_diff)
  then have "spec_trimmed_average ?ys = arduino_round (of_nat k / 3)"
    by (simp add: spec_trimmed_average_def round_half_away_def arduino_round_def len)
  also have "\<dots> = int ((k + 1) div 3)" by (rule arduino_round_third)
  finally show "uint (average5 min0 xs) = spec_trimmed_average ?ys"
    using avg by (simp add: uint_nat)
qed


lemma widen_bytes:
  fixes ts :: "byte list"
  shows "map unat (map ucast ts :: uint list) = map unat ts"
    and "\<forall>x \<in> set (map ucast ts :: uint list). x \<le> 255"
    and "sum_list (map unat ts) \<le> length ts * 255"
proof -
  have b: "unat x \<le> 255" for x :: byte
    using unsigned_less [of x, where ?'a = nat] by simp
  have u: "unat (ucast x :: uint) = unat x" for x :: byte
    using b [of x] by (simp add: unsigned_ucast_eq take_bit_nat_eq_self_iff)
  show "map unat (map ucast ts :: uint list) = map unat ts"
    by (simp add: u)
  show "\<forall>x \<in> set (map ucast ts :: uint list). x \<le> 255"
    using b by (auto simp: word_le_nat_alt u)
  show "sum_list (map unat ts) \<le> length ts * 255"
    using sum_list_le_length [of "map unat ts" 255] b by simp
qed

lemma average5_byte:
  fixes ts :: "byte list"
  assumes "length ts = 5"
  shows "uint (average5 255 (map ucast ts)) = spec_trimmed_average (map unat ts)"
    and "average5 255 (map ucast ts) \<le> 255"
proof -
  let ?xs = "map ucast ts :: uint list"
  have len: "length ?xs = 5" using assms by simp
  have sm: "sum_list (map unat ?xs) < 65536"
    unfolding widen_bytes(1) using widen_bytes(3) [of ts] assms by simp
  note facts = average5_spec [OF len widen_bytes(2) sm]
  show "uint (average5 255 ?xs) = spec_trimmed_average (map unat ts)"
    using facts(1) by (simp only: widen_bytes(1))
  have "set (map unat ?xs) \<noteq> {}" using assms by auto
  then have "Max (set (map unat ?xs)) \<in> set (map unat ?xs)" by (intro Max_in) simp
  then obtain x where "x \<in> set ?xs" "Max (set (map unat ?xs)) = unat x" by auto
  then have "Max (set (map unat ?xs)) \<le> 255"
    using widen_bytes(2) [of ts] by (auto simp: word_le_nat_alt)
  then have "unat (average5 255 ?xs) \<le> 255"
    using facts(2) by (rule order_trans [rotated])
  then show "average5 255 ?xs \<le> 255"
    by (simp add: word_le_nat_alt)
qed

lemma average5_volt:
  fixes vs :: "uint list"
  assumes "length vs = 5" "\<forall>x \<in> set vs. x \<le> 350"
  shows "uint (average5 65534 vs) = spec_trimmed_average (map unat vs)"
proof -
  have "\<forall>y \<in> set (map unat vs). y \<le> 350"
    using assms(2) by (auto simp: word_le_nat_alt)
  then have "sum_list (map unat vs) \<le> length (map unat vs) * 350"
    by (rule sum_list_le_length)
  then have sm: "sum_list (map unat vs) < 65536" using assms(1) by simp
  have le: "\<forall>x \<in> set vs. x \<le> 65534"
    using assms(2) by (auto simp: word_le_nat_alt)
  show ?thesis using assms(1) le sm by (rule average5_spec(1))
qed

subsection \<open>The proportional ramp without wrap-around\<close>

lemma ramp_unat:
  fixes x :: uint
  assumes "c \<le> x" "unat x \<le> 255" "unat c \<le> 255" "unat r \<le> 40"
  shows "unat (min (95 + (x - c) * r) 255) = min (95 + (unat x - unat c) * unat r) 255"
proof -
  have sub: "unat (x - c) = unat x - unat c"
    using assms(1) by (simp add: unat_sub)
  have "(unat x - unat c) * unat r \<le> 255 * 40"
    using assms by (intro mult_mono) auto
  then have bound: "(unat x - unat c) * unat r \<le> 10200" by simp
  have mul: "unat ((x - c) * r) = (unat x - unat c) * unat r"
    using bound by (simp add: unat_mult_lem [THEN iffD1] sub)
  have add: "unat (95 + (x - c) * r) = 95 + (unat x - unat c) * unat r"
    using bound by (simp add: unat_add_lem [THEN iffD1] mul)
  show ?thesis
    by (simp add: min_def word_le_nat_alt add)
qed

lemma decide5_high_unfold:
  assumes "VIN_GOOD \<le> voltAvg"
  shows "decide5 tempAvg humiAvg voltAvg high =
     ucast (max (if tempAvg \<ge> 28 then min (95 + (tempAvg - 28) * 40) 255 else 0)
                (if humiAvg \<ge> 70 then min (95 + (humiAvg - 70) * 8) 255 else (0::uint)))"
proof -
  have "\<not> voltAvg < 235" "\<not> voltAvg < 222"
    using assms by (simp_all add: fw_defs word_le_nat_alt word_less_nat_alt)
  then show ?thesis
    unfolding decide5_def fw_defs Let_def by simp
qed

lemma decide5_high_ramp:
  assumes "VIN_GOOD \<le> voltAvg" "tempAvg \<le> 255" "humiAvg \<le> 255"
  shows "unat (decide5 tempAvg humiAvg voltAvg high) =
    max (if TEMP_TRIGGER \<le> unat tempAvg
         then min (FAN_LOW5 + (unat tempAvg - TEMP_TRIGGER) * TEMP_RISE) FAN_HIGH else 0)
        (if HUMI_TRIGGER \<le> unat humiAvg
         then min (FAN_LOW5 + (unat humiAvg - HUMI_TRIGGER) * HUMI_RISE) FAN_HIGH else 0)"
proof -
  define fanT :: uint where "fanT = (if tempAvg \<ge> 28 then min (95 + (tempAvg - 28) * 40) 255 else 0)"
  define fanH :: uint where "fanH = (if humiAvg \<ge> 70 then min (95 + (humiAvg - 70) * 8) 255 else 0)"
  have tb: "unat tempAvg \<le> 255" and hb: "unat humiAvg \<le> 255"
    using assms(2,3) by (simp_all add: word_le_nat_alt)
  have T: "unat fanT = (if 28 \<le> unat tempAvg then min (95 + (unat tempAvg - 28) * 40) 255 else 0)"
    using ramp_unat [of 28 tempAvg 40] tb by (simp add: fanT_def word_le_nat_alt)
  have H: "unat fanH = (if 70 \<le> unat humiAvg then min (95 + (unat humiAvg - 70) * 8) 255 else 0)"
    using ramp_unat [of 70 humiAvg 8] hb by (simp add: fanH_def word_le_nat_alt)
  have m: "unat (max fanT fanH) = max (unat fanT) (unat fanH)"
    by (simp add: max_def word_le_nat_alt)
  have le: "unat (max fanT fanH) \<le> 255"
    unfolding m using T H by (simp split: if_splits)
  have "decide5 tempAvg humiAvg voltAvg high = ucast (max fanT fanH)"
    unfolding fanT_def fanH_def by (rule decide5_high_unfold [OF assms(1)])
  then have "unat (decide5 tempAvg humiAvg voltAvg high) = unat (ucast (max fanT fanH) :: byte)"
    by (rule arg_cong)
  also have "\<dots> = unat (max fanT fanH)"
    using le by (simp add: unsigned_ucast_eq take_bit_nat_eq_self_iff)
  also have "\<dots> = max (unat fanT) (unat fanH)" by (rule m)
  finally show ?thesis
    unfolding T H fw_defs .
qed

lemma decide5_low_band:
  assumes "VIN_LOW \<le> voltAvg" "p \<noteq> off" "voltAvg < VIN_GOOD \<or> p = low"
  shows "decide5 tempAvg humiAvg voltAvg p =
           (if tempAvg > TEMP_TRIGGER \<or> humiAvg > HUMI_TRIGGER then FAN_LOW5 else 0)"
proof -
  have "\<not> voltAvg < VIN_LOW" using assms(1) by (simp add: not_less)
  then show ?thesis
    using assms(2,3) by (simp add: decide5_def FAN_OFF_def)
qed

lemma decide5_mono:
  assumes good: "VIN_GOOD \<le> voltAvg"
    and trig: "TEMP_TRIGGER \<le> tempAvg1" and le: "tempAvg1 \<le> tempAvg2" and b: "tempAvg2 \<le> 255"
  shows "decide5 tempAvg1 humiAvg voltAvg high \<le> decide5 tempAvg2 humiAvg voltAvg high"
proof -
  define fanH :: uint where "fanH = (if humiAvg \<ge> 70 then min (95 + (humiAvg - 70) * 8) 255 else 0)"
  define fanT :: "uint \<Rightarrow> uint" where "fanT x = min (95 + (x - 28) * 40) 255" for x
  have t1: "28 \<le> tempAvg1" and t2: "28 \<le> tempAvg2"
    using trig le by (simp_all add: fw_defs)
  have n: "unat tempAvg1 \<le> unat tempAvg2" "unat tempAvg2 \<le> 255"
    using le b by (simp_all add: word_le_nat_alt)
  have T1: "unat (fanT tempAvg1) = min (95 + (unat tempAvg1 - 28) * 40) 255"
    unfolding fanT_def using ramp_unat [of 28 tempAvg1 40] t1 n by simp
  have T2: "unat (fanT tempAvg2) = min (95 + (unat tempAvg2 - 28) * 40) 255"
    unfolding fanT_def using ramp_unat [of 28 tempAvg2 40] t2 n by simp
  have TT: "fanT tempAvg1 \<le> fanT tempAvg2"
    unfolding word_le_nat_alt T1 T2 using n(1) by simp
  have H: "fanH \<le> 255" by (simp add: fanH_def)
  have B: "fanT x \<le> 255" for x by (simp add: fanT_def)
  have d: "decide5 x humiAvg voltAvg high = ucast (max (fanT x) fanH)" if "28 \<le> x" for x
    using decide5_high_unfold [OF good, of x humiAvg] that by (simp add: fanT_def fanH_def)
  have u: "unat (ucast (max (fanT x) fanH) :: byte) = unat (max (fanT x) fanH)" for x
  proof -
    have "max (fanT x) fanH \<le> 255" using H B [of x] by (simp add: max_def)
    then have "unat (max (fanT x) fanH) \<le> 255" by (simp add: word_le_nat_alt)
    then show ?thesis by (simp add: unsigned_ucast_eq take_bit_nat_eq_self_iff)
  qed
  have "max (fanT tempAvg1) fanH \<le> max (fanT tempAvg2) fanH"
    using TT by (rule max.mono) simp
  then show ?thesis
    by (simp only: d [OF t1] d [OF t2] word_le_nat_alt u)
qed

lemma decide5_ramp_on_samples:
  fixes ts hs :: "byte list"
  assumes "length ts = 5" and "length hs = 5" and "VIN_GOOD \<le> voltAvg"
    and "tempAvg = average5 255 (map ucast ts)" and "humiAvg = average5 255 (map ucast hs)"
  shows "unat (decide5 tempAvg humiAvg voltAvg high) =
    max (if TEMP_TRIGGER \<le> unat tempAvg
         then min (FAN_LOW5 + (unat tempAvg - TEMP_TRIGGER) * TEMP_RISE) FAN_HIGH else 0)
        (if HUMI_TRIGGER \<le> unat humiAvg
         then min (FAN_LOW5 + (unat humiAvg - HUMI_TRIGGER) * HUMI_RISE) FAN_HIGH else 0)"
proof -
  have "tempAvg \<le> 255" unfolding assms(4) using assms(1) by (rule average5_byte(2))
  moreover have "humiAvg \<le> 255" unfolding assms(5) using assms(2) by (rule average5_byte(2))
  ultimately show ?thesis using assms(3) by (intro decide5_high_ramp)
qed

lemma decide5_ramp_scenario:
  assumes "VIN_GOOD \<le> voltAvg" and "humiAvg \<le> 255"
  shows "decide5 32 humiAvg voltAvg high = 255"
proof -
  have "unat (decide5 32 humiAvg voltAvg high) = 255"
    using decide5_high_ramp [OF assms(1) _ assms(2), of 32] by (simp add: fw_defs)
  then show ?thesis by (simp add: word_unat_eq_iff)
qed

text \<open>
  Why the range of the averages matters: the ramp is 16-bit arithmetic, and an average
  beyond 1664, which no five byte samples produce, would wrap it.
\<close>

lemma decide5_ramp_wraps:
  "decide5 32 0 240 high = 255 \<and> decide5 1664 0 240 high = 255 \<and> decide5 1667 0 240 high = 119"
  by (simp add: decide5_def fw_defs)

subsection \<open>A pass of the five-sample loop\<close>

lemma rotate_mode_neq: "rotate_mode p \<noteq> p"
  by (cases p) (simp_all add: rotate_mode_def)

lemma rotate_mode_thrice: "rotate_mode (rotate_mode (rotate_mode p)) = p"
  by (cases p) (simp_all add: rotate_mode_def)

lemma process_button5_eq:
  "process_button5 now s =
     (case power_mode s of off \<Rightarrow> [FlashFast 4 LED_HIGH] | low \<Rightarrow> [FlashFast 6 LED_HIGH]
        | high \<Rightarrow> [FlashFast 2 LED_HIGH],
      s\<lparr>power_mode := rotate_mode (power_mode s),
        led := (case power_mode s of off \<Rightarrow> LED_LOW | low \<Rightarrow> LED_HIGH | high \<Rightarrow> LED_OFF),
        lastButton := now\<rparr>)"
  by (cases "power_mode s") (simp_all add: process_button5_def rotate_mode_def)

lemma readings5_frame:
  assumes "readings5 i s = Inr (ev, s')"
  shows "power_mode s' = power_mode s" "lastButton s' = lastButton s" "led s' = led s"
    "lastRead s' = lastRead s" "fan s' = fan s"
  using assms by (auto simp: readings5_def Let_def split: if_splits)

lemma drive5_frame:
  assumes "drive5 s = (ev, s')"
  shows "s' = s\<lparr>fan := fan s'\<rparr>" "ev = [FanWrite (fan s')]"
  using assms by (auto simp: drive5_def Let_def)

lemma loop5_cases:
  assumes "loop5 i s = Inr (ev, s')"
  obtains ev1 s1 ev2 s2 where
    "(ev1, s1) = (if pressed i \<or> auto_resume s (millis_resume i)
                  then process_button5 (millis_button i) s else ([], s))"
    "readings5 i s1 = Inr (ev2, s2)"
    "s' = s2\<lparr>lastRead := millis_read i, fan := fan s'\<rparr>"
    "ev = ev1 @ ev2 @ [LedWrite (led s2), FanWrite (fan s')]"
proof -
  define b where "b = (pressed i \<or> auto_resume s (millis_resume i))"
  obtain ev1 s1 where 1: "(ev1, s1) = (if b then process_button5 (millis_button i) s else ([], s))"
    by (metis surj_pair)
  from assms obtain ev2 s2 where 2: "readings5 i s1 = Inr (ev2, s2)"
    unfolding loop5_def Let_def using 1 [symmetric]
    by (auto simp: b_def split: sum.splits if_splits prod.splits)
  obtain ev3 s4 where 3: "drive5 (s2\<lparr>lastRead := millis_read i\<rparr>) = (ev3, s4)"
    by (metis surj_pair)
  from assms have 4: "ev = ev1 @ ev2 @ [LedWrite (led s2)] @ ev3" "s' = s4"
    unfolding loop5_def Let_def using 1 [symmetric] 2 3
    by (auto simp: b_def split: if_splits)
  from drive5_frame [OF 3] 4 have
    "s' = s2\<lparr>lastRead := millis_read i, fan := fan s'\<rparr>"
    "ev = ev1 @ ev2 @ [LedWrite (led s2), FanWrite (fan s')]"
    by simp_all
  with 1 2 show ?thesis using that unfolding b_def by blast
qed

lemma loop5_power:
  assumes "loop5 i s = Inr (ev, s')"
  shows "power_mode s' = (if pressed i \<or> auto_resume s (millis_resume i)
                          then rotate_mode (power_mode s) else power_mode s)"
    and "lastButton s' = (if pressed i \<or> auto_resume s (millis_resume i)
                          then millis_button i else lastButton s)"
proof -
  from assms obtain ev1 s1 ev2 s2 where
    1: "(ev1, s1) = (if pressed i \<or> auto_resume s (millis_resume i)
                  then process_button5 (millis_button i) s else ([], s))"
    and 2: "readings5 i s1 = Inr (ev2, s2)"
    and 3: "s' = s2\<lparr>lastRead := millis_read i, fan := fan s'\<rparr>"
    by (rule loop5_cases)
  have "power_mode s' = power_mode s1" "lastButton s' = lastButton s1"
    using readings5_frame [OF 2] by (subst 3, simp)+
  moreover have "power_mode s1 = (if pressed i \<or> auto_resume s (millis_resume i)
                          then rotate_mode (power_mode s) else power_mode s)"
    "lastButton s1 = (if pressed i \<or> auto_resume s (millis_resume i)
                          then millis_button i else lastButton s)"
    using 1 by (auto simp: process_button5_eq split: if_splits)
  ultimately show "power_mode s' = (if pressed i \<or> auto_resume s (millis_resume i)
                          then rotate_mode (power_mode s) else power_mode s)"
    and "lastButton s' = (if pressed i \<or> auto_resume s (millis_resume i)
                          then millis_button i else lastButton s)"
    by simp_all
qed

lemma loop5_changes:
  assumes "loop5 i s = Inr (ev, s')"
  shows "power_mode s' \<noteq> power_mode s \<longleftrightarrow> pressed i \<or> auto_resume s (millis_resume i)"
  using loop5_power(1) [OF assms] rotate_mode_neq [of "power_mode s"] by auto

lemma reach5_lastButton: "reach5 s g \<Longrightarrow> lastButton s = g"
proof (induction rule: reach5.induct)
  case (boot temp humi vin)
  show ?case by (simp add: setup5_def)
next
  case (pass s g i ev s')
  show ?case
    using loop5_power(2) [OF pass.hyps(2)] loop5_changes [OF pass.hyps(2)] pass.IH
    by auto
qed


text \<open>The write index stays inside the arrays, so no pass faults.\<close>

lemma next_index:
  fixes k n :: int
  assumes "0 \<le> k" "0 < n"
  shows "0 \<le> (k + 1) smod n" "(k + 1) smod n < n"
  using assms by (simp_all add: smod_mod_positive)

lemma readings5_index:
  assumes "readings5 i s = Inr (ev, s')" "0 \<le> index s \<and> index s < 5"
  shows "0 \<le> index s' \<and> index s' < 5"
  using assms by (auto simp: readings5_def Let_def split: if_splits)

lemma readings5_total:
  assumes "0 \<le> index s"
  shows "\<exists>ev s'. readings5 i s = Inr (ev, s')"
  using next_index [OF assms, of 5] by (simp add: readings5_def Let_def)

lemma button_step5_index:
  assumes "(ev1, s1) = (if b then process_button5 now s else ([], s))"
  shows "index s1 = index s" "t s1 = t s" "h s1 = h s" "v s1 = v s"
  using assms by (auto simp: process_button5_eq split: if_splits)

lemma loop5_total:
  assumes "0 \<le> index s"
  shows "\<exists>ev s'. loop5 i s = Inr (ev, s')"
proof -
  define b where "b = (if auto_resume s (millis_resume i) then True else pressed i)"
  obtain ev1 s1 where 1: "(ev1, s1) = (if b then process_button5 (millis_button i) s else ([], s))"
    by (metis surj_pair)
  have "0 \<le> index s1" using button_step5_index(1) [OF 1] assms by simp
  then obtain ev2 s2 where 2: "readings5 i s1 = Inr (ev2, s2)"
    using readings5_total by blast
  show ?thesis
    unfolding loop5_def Let_def b_def [symmetric] 1 [symmetric]
    by (simp add: 2 split: prod.splits)
qed

lemma loop5_index:
  assumes "loop5 i s = Inr (ev, s')" "0 \<le> index s \<and> index s < 5"
  shows "0 \<le> index s' \<and> index s' < 5"
proof -
  from assms(1) obtain ev1 s1 ev2 s2 where
    1: "(ev1, s1) = (if pressed i \<or> auto_resume s (millis_resume i)
                  then process_button5 (millis_button i) s else ([], s))"
    and 2: "readings5 i s1 = Inr (ev2, s2)"
    and 3: "s' = s2\<lparr>lastRead := millis_read i, fan := fan s'\<rparr>"
    by (rule loop5_cases)
  have "0 \<le> index s1 \<and> index s1 < 5"
    using button_step5_index(1) [OF 1] assms(2) by simp
  then have "0 \<le> index s2 \<and> index s2 < 5" by (rule readings5_index [OF 2])
  then show ?thesis by (subst 3, simp)+
qed

lemma reach5_index: "reach5 s g \<Longrightarrow> 0 \<le> index s \<and> index s < 5"
proof (induction rule: reach5.induct)
  case (boot temp humi vin)
  show ?case by (simp add: setup5_def)
next
  case (pass s g i ev s')
  show ?case using pass.hyps(2) pass.IH by (rule loop5_index)
qed

lemma loop5_invalid:
  assumes "dht_status i \<noteq> ''OK''"
  shows "\<exists>ev s'. loop5 i s = Inr (ev, s') \<and> t s' = t s \<and> h s' = h s \<and> v s' = v s \<and>
           index s' = index s \<and> (\<exists>p. FlashFast 10 p \<in> set ev) \<and> last ev = FanWrite (fan s')"
proof -
  define b where "b = (if auto_resume s (millis_resume i) then True else pressed i)"
  obtain ev1 s1 where 1: "(ev1, s1) = (if b then process_button5 (millis_button i) s else ([], s))"
    by (metis surj_pair)
  have 2: "readings5 i s1 = Inr ([FlashFast 10 (max (led s1) LED_LOW)], s1)"
    using assms by (simp add: readings5_def Let_def)
  obtain ev3 s4 where 3: "drive5 (s1\<lparr>lastRead := millis_read i\<rparr>) = (ev3, s4)"
    by (metis surj_pair)
  have 4: "loop5 i s = Inr (ev1 @ [FlashFast 10 (max (led s1) LED_LOW)] @ [LedWrite (led s1)] @ ev3, s4)"
    unfolding loop5_def Let_def b_def [symmetric] 1 [symmetric]
    by (simp add: 2 3)
  have 5: "s4 = s1\<lparr>lastRead := millis_read i, fan := fan s4\<rparr>" "ev3 = [FanWrite (fan s4)]"
    using drive5_frame [OF 3] by simp_all
  have "t s4 = t s" "h s4 = h s" "v s4 = v s" "index s4 = index s"
    using button_step5_index [OF 1] by (subst 5(1), simp)+
  then show ?thesis
    unfolding 4 using 5(2) by auto
qed


subsection \<open>A pass of the ten-sample loop\<close>

lemma process_button10_eq:
  "process_button10 s =
     (if button s
      then (case power_mode s of off \<Rightarrow> [FlashFast 2 LED_HIGH] | low \<Rightarrow> [FlashFast 5 LED_HIGH]
              | high \<Rightarrow> [FlashFast 1 LED_HIGH],
            s\<lparr>power_mode := rotate_mode (power_mode s),
              led := (case power_mode s of off \<Rightarrow> LED_LOW | low \<Rightarrow> LED_HIGH | high \<Rightarrow> LED_OFF),
              button := False\<rparr>)
      else ([], s\<lparr>button := False\<rparr>))"
  by (cases "power_mode s") (simp_all add: process_button10_def rotate_mode_def)

lemma poll10_eq: "poll10 i s = s\<lparr>button := (button s \<or> pressed i)\<rparr>"
  by (cases "button s") (simp_all add: poll10_def)

lemma button_step10:
  assumes "(ev1, s1) = process_button10 (poll10 i s)"
  shows "power_mode s1 = (if pressed i \<or> button s then rotate_mode (power_mode s) else power_mode s)"
    and "button s1 = False"
    and "index s1 = index s" "t s1 = t s" "h s1 = h s" "v s1 = v s"
  using assms by (auto simp: process_button10_eq poll10_eq split: if_splits)

lemma readings10_frame:
  assumes "readings10 i s = Inr (ev, s')"
  shows "power_mode s' = power_mode s" "button s' = button s" "led s' = led s"
    "lastRead s' = lastRead s" "fan s' = fan s"
  using assms by (auto simp: readings10_def Let_def split: if_splits)

lemma readings10_index:
  assumes "readings10 i s = Inr (ev, s')" "0 \<le> index s \<and> index s < 10"
  shows "0 \<le> index s' \<and> index s' < 10"
  using assms by (auto simp: readings10_def Let_def split: if_splits)

lemma readings10_total:
  assumes "0 \<le> index s"
  shows "\<exists>ev s'. readings10 i s = Inr (ev, s')"
  using next_index [OF assms, of 10] by (simp add: readings10_def Let_def)

lemma drive10_frame:
  assumes "drive10 s = (ev, s')"
  shows "s' = s\<lparr>fan := fan s'\<rparr>" "ev = [FanWrite (fan s')]"
  using assms by (auto simp: drive10_def Let_def)

lemma loop10_cases:
  assumes "loop10 i s = Inr (ev, s')"
  obtains ev1 s1 ev2 s2 where
    "(ev1, s1) = process_button10 (poll10 i s)"
    "readings10 i s1 = Inr (ev2, s2)"
    "s' = s2\<lparr>lastRead := millis_read i, fan := fan s'\<rparr>"
    "ev = ev1 @ ev2 @ [LedWrite (led s2), FanWrite (fan s')]"
proof -
  obtain ev1 s1 where 1: "(ev1, s1) = process_button10 (poll10 i s)"
    by (metis surj_pair)
  from assms obtain ev2 s2 where 2: "readings10 i s1 = Inr (ev2, s2)"
    unfolding loop10_def Let_def using 1 [symmetric]
    by (auto split: sum.splits prod.splits)
  obtain ev3 s4 where 3: "drive10 (s2\<lparr>lastRead := millis_read i\<rparr>) = (ev3, s4)"
    by (metis surj_pair)
  from assms have 4: "ev = ev1 @ ev2 @ [LedWrite (led s2)] @ ev3" "s' = s4"
    unfolding loop10_def Let_def using 1 [symmetric] 2 3
    by auto
  from drive10_frame [OF 3] 4 have
    "s' = s2\<lparr>lastRead := millis_read i, fan := fan s'\<rparr>"
    "ev = ev1 @ ev2 @ [LedWrite (led s2), FanWrite (fan s')]"
    by simp_all
  with 1 2 show ?thesis using that by blast
qed

lemma loop10_power:
  assumes "loop10 i s = Inr (ev, s')"
  shows "power_mode s' = (if pressed i \<or> button s then rotate_mode (power_mode s) else power_mode s)"
    and "button s' = False"
proof -
  from assms obtain ev1 s1 ev2 s2 where
    1: "(ev1, s1) = process_button10 (poll10 i s)"
    and 2: "readings10 i s1 = Inr (ev2, s2)"
    and 3: "s' = s2\<lparr>lastRead := millis_read i, fan := fan s'\<rparr>"
    by (rule loop10_cases)
  have "power_mode s' = power_mode s1" "button s' = button s1"
    using readings10_frame [OF 2] by (subst 3, simp)+
  then show "power_mode s' = (if pressed i \<or> button s then rotate_mode (power_mode s) else power_mode s)"
    and "button s' = False"
    using button_step10(1,2) [OF 1] by simp_all
qed

lemma loop10_total:
  assumes "0 \<le> index s"
  shows "\<exists>ev s'. loop10 i s = Inr (ev, s')"
proof -
  obtain ev1 s1 where 1: "(ev1, s1) = process_button10 (poll10 i s)"
    by (metis surj_pair)
  have "0 \<le> index s1" using button_step10(3) [OF 1] assms by simp
  then obtain ev2 s2 where 2: "readings10 i s1 = Inr (ev2, s2)"
    using readings10_total by blast
  show ?thesis
    unfolding loop10_def Let_def 1 [symmetric]
    by (simp add: 2 split: prod.splits)
qed

lemma loop10_index:
  assumes "loop10 i s = Inr (ev, s')" "0 \<le> index s \<and> index s < 10"
  shows "0 \<le> index s' \<and> index s' < 10"
proof -
  from assms(1) obtain ev1 s1 ev2 s2 where
    1: "(ev1, s1) = process_button10 (poll10 i s)"
    and 2: "readings10 i s1 = Inr (ev2, s2)"
    and 3: "s' = s2\<lparr>lastRead := millis_read i, fan := fan s'\<rparr>"
    by (rule loop10_cases)
  have "0 \<le> index s1 \<and> index s1 < 10"
    using button_step10(3) [OF 1] assms(2) by simp
  then have "0 \<le> index s2 \<and> index s2 < 10" by (rule readings10_index [OF 2])
  then show ?thesis by (subst 3, simp)+
qed

lemma reach10_inv: "reach10 s \<Longrightarrow> button s = False \<and> 0 \<le> index s \<and> index s < 10"
proof (induction rule: reach10.induct)
  case (boot10 temp humi vin)
  show ?case by (simp add: setup10_def)
next
  case (pass10 s i ev s')
  from pass10.IH have "0 \<le> index s \<and> index s < 10" by simp
  with pass10.hyps(2) have "0 \<le> index s' \<and> index s' < 10" by (rule loop10_index)
  then show ?case using loop10_power(2) [OF pass10.hyps(2)] by simp
qed

lemma loop10_invalid:
  assumes "dht_status i \<noteq> ''OK''"
  shows "\<exists>ev s'. loop10 i s = Inr (ev, s') \<and> t s' = t s \<and> h s' = h s \<and> v s' = v s \<and>
           index s' = index s \<and> (\<exists>p. FlashFast 3 p \<in> set ev) \<and> last ev = FanWrite (fan s')"
proof -
  obtain ev1 s1 where 1: "(ev1, s1) = process_button10 (poll10 i s)"
    by (metis surj_pair)
  have 2: "readings10 i s1 = Inr ([FlashFast 3 (led s1)], s1)"
    using assms by (simp add: readings10_def Let_def)
  obtain ev3 s4 where 3: "drive10 (s1\<lparr>lastRead := millis_read i\<rparr>) = (ev3, s4)"
    by (metis surj_pair)
  have 4: "loop10 i s = Inr (ev1 @ [FlashFast 3 (led s1)] @ [LedWrite (led s1)] @ ev3, s4)"
    unfolding loop10_def Let_def 1 [symmetric]
    by (simp add: 2 3)
  have 5: "s4 = s1\<lparr>lastRead := millis_read i, fan := fan s4\<rparr>" "ev3 = [FanWrite (fan s4)]"
    using drive10_frame [OF 3] by simp_all
  have "t s4 = t s" "h s4 = h s" "v s4 = v s" "index s4 = index s"
    using button_step10(3-6) [OF 1] by (subst 5(1), simp)+
  then show ?thesis
    unfolding 4 using 5(2) by auto
qed

lemma run10_unpressed:
  assumes "button s = False" "0 \<le> index s \<and> index s < 10" "\<forall>i \<in> set is. \<not> pressed i"
  shows "\<exists>s'. run10 is s = Inr s' \<and> power_mode s' = power_mode s"
  using assms
proof (induction "is" arbitrary: s)
  case Nil
  then show ?case by simp
next
  case (Cons i "is")
  from Cons.prems(2) obtain ev s1 where 1: "loop10 i s = Inr (ev, s1)"
    using loop10_total by blast
  have p: "power_mode s1 = power_mode s" "button s1 = False"
    using loop10_power [OF 1] Cons.prems(1,3) by simp_all
  have "0 \<le> index s1 \<and> index s1 < 10" using 1 Cons.prems(2) by (rule loop10_index)
  with p(2) Cons.prems(3) obtain s' where "run10 is s1 = Inr s'" "power_mode s' = power_mode s1"
    using Cons.IH [of s1] by auto
  then show ?case using 1 p(1) by simp
qed

subsection \<open>Stamping the mode change\<close>

lemma auto_resume_stamp [simp]:
  "auto_resume s (millis_resume (i\<lparr>millis_button := b\<rparr>)) = auto_resume s (millis_resume i)"
  by simp

lemma readings5_restamp:
  assumes "readings5 i s = Inr (ev, s')"
  shows "readings5 (i\<lparr>millis_button := b\<rparr>) (s\<lparr>lastButton := k\<rparr>) = Inr (ev, s'\<lparr>lastButton := k\<rparr>)"
  using assms by (auto simp: readings5_def Let_def split: if_splits)

lemma drive5_restamp:
  assumes "drive5 s = (ev, s')"
  shows "drive5 (s\<lparr>lastButton := k\<rparr>) = (ev, s'\<lparr>lastButton := k\<rparr>)"
  using assms by (auto simp: drive5_def Let_def)

lemma loop5_restamp:
  assumes "loop5 i s = Inr (ev, s')"
  shows "loop5 (i\<lparr>millis_button := b\<rparr>) s =
           Inr (ev, s'\<lparr>lastButton := (if pressed i \<or> auto_resume s (millis_resume i) then b
                                      else lastButton s)\<rparr>)"
proof -
  define c where "c \<longleftrightarrow> pressed i \<or> auto_resume s (millis_resume i)"
  define k where "k = (if c then b else lastButton s)"
  have cc: "(if auto_resume s (millis_resume i) then True else pressed i) = c"
    by (auto simp: c_def)
  obtain ev1 s1 where 1: "(if c then process_button5 (millis_button i) s else ([], s)) = (ev1, s1)"
    by (metis surj_pair)
  have p1: "(if c then process_button5 b s else ([], s)) = (ev1, s1\<lparr>lastButton := k\<rparr>)"
    using 1 by (auto simp: process_button5_eq k_def split: if_splits)
  from assms obtain ev2 s2 where 2: "readings5 i s1 = Inr (ev2, s2)"
    unfolding loop5_def Let_def cc 1
    by (auto split: sum.splits)
  obtain ev3 s4 where 3: "drive5 (s2\<lparr>lastRead := millis_read i\<rparr>) = (ev3, s4)"
    by (metis surj_pair)
  have p3: "drive5 (s2\<lparr>lastButton := k, lastRead := millis_read i\<rparr>) = (ev3, s4\<lparr>lastButton := k\<rparr>)"
  proof -
    have "s2\<lparr>lastButton := k, lastRead := millis_read i\<rparr> =
          s2\<lparr>lastRead := millis_read i, lastButton := k\<rparr>"
      by (cases s2) simp
    then show ?thesis using drive5_restamp [OF 3, of k] by (simp only:)
  qed
  from assms have 4: "ev = ev1 @ ev2 @ [LedWrite (led s2)] @ ev3" "s' = s4"
    unfolding loop5_def Let_def cc 1 by (simp_all add: 2 3)
  have f: "millis_button (i\<lparr>millis_button := b\<rparr>) = b"
    "millis_resume (i\<lparr>millis_button := b\<rparr>) = millis_resume i"
    "millis_read (i\<lparr>millis_button := b\<rparr>) = millis_read i"
    "pressed (i\<lparr>millis_button := b\<rparr>) = pressed i"
    by simp_all
  have "loop5 (i\<lparr>millis_button := b\<rparr>) s =
          Inr (ev1 @ ev2 @ [LedWrite (led s2)] @ ev3, s4\<lparr>lastButton := k\<rparr>)"
    unfolding loop5_def Let_def f cc p1
    by (simp add: readings5_restamp [OF 2] p3)
  then show ?thesis
    unfolding 4 k_def c_def by simp
qed

subsection \<open>Three passes in a row\<close>

lemma run5_three:
  assumes idx: "0 \<le> index s \<and> index s < 5"
  shows "\<exists>s1 s2 s3 e1 e2 e3. loop5 i1 s = Inr (e1, s1) \<and> loop5 i2 s1 = Inr (e2, s2) \<and>
           loop5 i3 s2 = Inr (e3, s3) \<and> run5 [i1, i2, i3] s = Inr s3"
proof -
  obtain e1 s1 where 1: "loop5 i1 s = Inr (e1, s1)" using loop5_total idx by blast
  have "0 \<le> index s1 \<and> index s1 < 5" using 1 idx by (rule loop5_index)
  then obtain e2 s2 where 2: "loop5 i2 s1 = Inr (e2, s2)" and "0 \<le> index s2 \<and> index s2 < 5"
    using loop5_total loop5_index by blast
  then obtain e3 s3 where 3: "loop5 i3 s2 = Inr (e3, s3)" using loop5_total by blast
  show ?thesis using 1 2 3 by simp
qed

lemma run10_three:
  assumes idx: "0 \<le> index s \<and> index s < 10"
  shows "\<exists>s1 s2 s3 e1 e2 e3. loop10 i1 s = Inr (e1, s1) \<and> loop10 i2 s1 = Inr (e2, s2) \<and>
           loop10 i3 s2 = Inr (e3, s3) \<and> run10 [i1, i2, i3] s = Inr s3"
proof -
  obtain e1 s1 where 1: "loop10 i1 s = Inr (e1, s1)" using loop10_total idx by blast
  have "0 \<le> index s1 \<and> index s1 < 10" using 1 idx by (rule loop10_index)
  then obtain e2 s2 where 2: "loop10 i2 s1 = Inr (e2, s2)" and "0 \<le> index s2 \<and> index s2 < 10"
    using loop10_total loop10_index by blast
  then obtain e3 s3 where 3: "loop10 i3 s2 = Inr (e3, s3)" using loop10_total by blast
  show ?thesis using 1 2 3 by simp
qed

subsection \<open>Passes on concrete inputs\<close>

lemma floor_rat_numeral: "\<lfloor>numeral a / numeral b :: rat\<rfloor> = numeral a div numeral b"
  using floor_divide_of_int_eq [of "numeral a" "numeral b", where ?'a = rat] by simp

lemma one_smod: "(1 :: int) smod numeral n = 1 mod numeral n"
  by (simp add: smod_mod_positive)

lemma replicate_5: "replicate 5 x = [x, x, x, x, x]"
  by (simp add: eval_nat_numeral)

lemma replicate_10: "replicate 10 x = [x, x, x, x, x, x, x, x, x, x]"
  by (simp add: eval_nat_numeral)

lemmas eval5 = loop5_def auto_resume_def process_button5_def readings5_def drive5_def
  constrain_def average5_div trimmed_total_def decide5_def fw_defs Let_def setup5_def
  one_smod replicate_5

lemmas eval10 = loop10_def poll10_def process_button10_def readings10_def drive10_def
  constrain_def average10_def trimmed_total_def decide10_def fw_defs Let_def setup10_def
  one_smod replicate_10

text \<open>A press in the first pass after start-up, at 25 degrees, 60 percent and ADC 240.\<close>

lemma press_after_setup5:
  "loop5 \<lparr>pressed = True, dht_temperature = 30, dht_humidity = 50, dht_status = ''OK'',
          adc_vin = 240, millis_read = 3000, millis_resume = 1000,
          millis_button = 2000\<rparr> (setup5 25 60 240) =
     Inr ([FlashFast 2 255, LedWrite 0, FanWrite 0],
          \<lparr>t = [25, 30, 25, 25, 25], h = [60, 50, 60, 60, 60], v = [240, 240, 240, 240, 240],
           power_mode = off, lastRead = 3000, index = 1, fan = 0, led = 0,
           lastButton = 2000\<rparr>)"
  by (simp add: eval5)

text \<open>The pass three hours later, with no press.\<close>

lemma resume_after_press5:
  "loop5 \<lparr>pressed = False, dht_temperature = 30, dht_humidity = 50, dht_status = ''OK'',
          adc_vin = 240, millis_read = 10805000, millis_resume = 10803000,
          millis_button = 10804000\<rparr>
     \<lparr>t = [25, 30, 25, 25, 25], h = [60, 50, 60, 60, 60], v = [240, 240, 240, 240, 240],
      power_mode = off, lastRead = 3000, index = 1, fan = 0, led = 0, lastButton = 2000\<rparr> =
   Inr ([FlashFast 4 255, LedWrite 10, FanWrite 0],
        \<lparr>t = [25, 30, 30, 25, 25], h = [60, 50, 50, 60, 60], v = [240, 240, 240, 240, 240],
         power_mode = low, lastRead = 10805000, index = 2, fan = 0, led = 10,
         lastButton = 10804000\<rparr>)"
  by (simp add: eval5)

lemma press_after_setup10:
  "loop10 \<lparr>pressed = True, dht_temperature = 30, dht_humidity = 50, dht_status = ''OK'',
           adc_vin = 240, millis_read = 3000\<rparr> (setup10 25 60 240) =
     Inr ([FlashFast 1 255, LedWrite 0, FanWrite 0],
          \<lparr>t = [25, 30, 25, 25, 25, 25, 25, 25, 25, 25],
           h = [60, 50, 60, 60, 60, 60, 60, 60, 60, 60],
           v = [240, 240, 240, 240, 240, 240, 240, 240, 240, 240],
           power_mode = off, lastRead = 3000, index = 1, fan = 0, led = 0, button = False\<rparr>)"
  by (simp add: eval10)

section \<open>The fan decision\<close>

text \<open>
  C4. Whenever the averaged voltage is strictly below the low-voltage threshold, or the
  power mode is off, the fan decision is duty 0, whatever the mode, temperature and
  humidity are. This holds in both sketches.
\<close>

theorem decide_cutoff:
  "voltAvg < VIN_LOW \<or> p = off \<Longrightarrow>
     decide5 tempAvg humiAvg voltAvg p = 0 \<and> decide10 tempAvg humiAvg voltAvg p = 0"
  by (auto simp: decide5_def decide10_def)

theorem decide_cutoff_witness:
  "((200 :: uint) < VIN_LOW \<or> high = off) \<and>
   decide5 35 80 200 high = 0 \<and> decide10 35 80 200 high = 0"
  using decide_cutoff [of 200 high 35 80] by (simp add: fw_defs)

text \<open>
  C1. With the averaged voltage at or above the good-voltage threshold and mode High, the
  fan duty is the larger of a temperature ramp and a humidity ramp, each 0 below its
  trigger. The five-sample sketch computes exactly that on every average of byte samples
  (\<open>decide5_ramp_on_samples\<close>, and \<open>decide5_ramp_scenario\<close> for the average 32).
  The ten-sample sketch does not: on a boat at 20 degrees and 50 percent with ADC 240, where
  both ramps are 0, its first pass after start-up drives the fan at \<open>FAN_HIGH\<close>.
\<close>

theorem loop10_high_ignores_sensors:
  "loop10 \<lparr>pressed = False, dht_temperature = 20, dht_humidity = 50, dht_status = ''OK'',
            adc_vin = 240, millis_read = 10000\<rparr> (setup10 20 50 240) =
     Inr ([LedWrite 255, FanWrite 255],
          \<lparr>t = [20, 20, 20, 20, 20, 20, 20, 20, 20, 20],
           h = [50, 50, 50, 50, 50, 50, 50, 50, 50, 50],
           v = [240, 240, 240, 240, 240, 240, 240, 240, 240, 240],
           power_mode = high, lastRead = 10000, index = 1, fan = 255, led = 255,
           button = False\<rparr>) \<and>
   decide10 20 50 240 high = FAN_HIGH \<and> decide5 20 50 240 high = 0"
  by (simp add: eval10 decide5_def)

text \<open>
  C2. With the averaged voltage not below the low-voltage threshold and the mode not off,
  a marginal voltage or mode Low gives the fixed reduced duty exactly when the averaged
  temperature or humidity is strictly above its trigger, and 0 otherwise. The five-sample
  sketch does so (\<open>decide5_low_band\<close>). The ten-sample sketch drives the fan at
  \<open>FAN_LOW10\<close> in this branch whatever the sensors say: at 20 degrees and 50 percent,
  below both triggers, with ADC 228 the duty is 96 where C2 gives 0.
\<close>

theorem loop10_low_ignores_sensors:
  "loop10 \<lparr>pressed = False, dht_temperature = 20, dht_humidity = 50, dht_status = ''OK'',
            adc_vin = 228, millis_read = 10000\<rparr> (setup10 20 50 228) =
     Inr ([LedWrite 255, FanWrite 96],
          \<lparr>t = [20, 20, 20, 20, 20, 20, 20, 20, 20, 20],
           h = [50, 50, 50, 50, 50, 50, 50, 50, 50, 50],
           v = [228, 228, 228, 228, 228, 228, 228, 228, 228, 228],
           power_mode = high, lastRead = 10000, index = 1, fan = 96, led = 255,
           button = False\<rparr>) \<and>
   decide10 20 50 228 high = FAN_LOW10 \<and> decide10 20 50 240 low = FAN_LOW10 \<and>
   decide5 20 50 228 high = 0 \<and> decide5 20 50 240 low = 0"
  by (simp add: eval10 decide5_def)

text \<open>
  C8. With the humidity fixed, mode High and the averaged voltage at or above the
  good-voltage threshold, the fan duty does not decrease when the averaged temperature
  rises, from the trigger upwards. The averaged temperatures are the ones the sketch
  computes, from five byte samples each (line 319); they stay below 256, far from where the
  16-bit ramp would wrap (\<open>decide5_ramp_wraps\<close>).
\<close>

theorem decide5_temp_monotone:
  fixes ts1 ts2 :: "byte list"
  assumes "length ts1 = 5" and "length ts2 = 5"
    and "tempAvg1 = average5 255 (map ucast ts1)"
    and "tempAvg2 = average5 255 (map ucast ts2)"
    and "VIN_GOOD \<le> voltAvg"
    and "TEMP_TRIGGER \<le> tempAvg1" and "tempAvg1 \<le> tempAvg2"
  shows "decide5 tempAvg1 humiAvg voltAvg high \<le> decide5 tempAvg2 humiAvg voltAvg high"
proof -
  have "tempAvg2 \<le> 255"
    unfolding assms(4) using assms(2) by (rule average5_byte(2))
  with assms(5,6,7) show ?thesis by (rule decide5_mono)
qed

theorem decide5_temp_monotone_witness:
  "length [29, 29, 30, 29, 28 :: byte] = 5 \<and> length [31, 30, 31, 32, 31 :: byte] = 5 \<and>
   (29 :: uint) = average5 255 (map ucast [29, 29, 30, 29, 28 :: byte]) \<and>
   (31 :: uint) = average5 255 (map ucast [31, 30, 31, 32, 31 :: byte]) \<and>
   (VIN_GOOD :: uint) \<le> 240 \<and> (TEMP_TRIGGER :: uint) \<le> 29 \<and> (29 :: uint) \<le> 31 \<and>
   decide5 29 50 240 high \<le> decide5 31 50 240 high \<and>
   decide5 29 50 240 high = 135 \<and> decide5 31 50 240 high = 215"
proof -
  have a: "length [29, 29, 30, 29, 28 :: byte] = 5" "length [31, 30, 31, 32, 31 :: byte] = 5"
    by simp_all
  have b: "(29 :: uint) = average5 255 (map ucast [29, 29, 30, 29, 28 :: byte])"
    "(31 :: uint) = average5 255 (map ucast [31, 30, 31, 32, 31 :: byte])"
    by (simp_all add: average5_div trimmed_total_def)
  have c: "(VIN_GOOD :: uint) \<le> 240" "(TEMP_TRIGGER :: uint) \<le> 29" "(29 :: uint) \<le> 31"
    by (simp_all add: fw_defs)
  have d: "decide5 29 50 240 high = 135" "decide5 31 50 240 high = 215"
    by (simp_all add: decide5_def fw_defs)
  show ?thesis
    using a b c d decide5_temp_monotone [OF a b c, of 50] by simp
qed

section \<open>The trimmed average\<close>

text \<open>
  C3. For every channel and buffer the average of a pass is the sum of the samples less
  one maximum and one minimum, divided exactly by the number of samples less two and
  rounded to the nearest integer, halves away from zero; the divisor is 3 for five samples
  and 8 for ten. The five-sample sketch computes that (\<open>average5_byte\<close> for temperature
  and humidity, \<open>average5_volt\<close> for the voltage). The ten-sample sketch divides two
  integers and so truncates: on the temperatures below the trimmed sum is 175, the sketch
  yields 21, and 175 / 8 = 21.875 rounds to 22.
\<close>

theorem average10_truncates:
  "average10 255 (map ucast [20, 21, 22, 22, 22, 22, 22, 22, 22, 30 :: byte]) = 21 \<and>
   spec_trimmed_average (map unat [20, 21, 22, 22, 22, 22, 22, 22, 22, 30 :: byte]) = 22 \<and>
   average5 255 (map ucast [20, 22, 22, 23, 30 :: byte]) = 22 \<and>
   spec_trimmed_average (map unat [20, 22, 22, 23, 30 :: byte]) = 22"
  by (simp add: average10_def average5_div trimmed_total_def spec_trimmed_average_def
      round_half_away_def floor_rat_numeral)

section \<open>The power mode\<close>

text \<open>
  C7. A pass that saw the button moves the power mode one step along Off, Low, High,
  Off, and three such passes in a row bring it back to where it started. This holds in
  both sketches, from every state whose write index lies inside the arrays.
\<close>

theorem press_rotates:
  assumes "0 \<le> index s5 \<and> index s5 < 5" and "0 \<le> index s10 \<and> index s10 < 10"
    and "pressed i1 \<and> pressed i2 \<and> pressed i3" and "pressed j1 \<and> pressed j2 \<and> pressed j3"
  shows "(\<exists>ev s'. loop5 i1 s5 = Inr (ev, s') \<and> power_mode s' = rotate_mode (power_mode s5)) \<and>
         (\<exists>s'. run5 [i1, i2, i3] s5 = Inr s' \<and> power_mode s' = power_mode s5) \<and>
         (\<exists>ev s'. loop10 j1 s10 = Inr (ev, s') \<and> power_mode s' = rotate_mode (power_mode s10)) \<and>
         (\<exists>s'. run10 [j1, j2, j3] s10 = Inr s' \<and> power_mode s' = power_mode s10)"
proof -
  obtain s1 s2 s3 e1 e2 e3 where a: "loop5 i1 s5 = Inr (e1, s1)" "loop5 i2 s1 = Inr (e2, s2)"
    "loop5 i3 s2 = Inr (e3, s3)" "run5 [i1, i2, i3] s5 = Inr s3"
    using run5_three [OF assms(1)] by blast
  have a1: "power_mode s1 = rotate_mode (power_mode s5)"
    using loop5_power(1) [OF a(1)] assms(3) by simp
  have "power_mode s3 = rotate_mode (rotate_mode (rotate_mode (power_mode s5)))"
    using loop5_power(1) [OF a(2)] loop5_power(1) [OF a(3)] a1 assms(3) by simp
  then have a3: "power_mode s3 = power_mode s5" by (simp only: rotate_mode_thrice)
  obtain u1 u2 u3 f1 f2 f3 where b: "loop10 j1 s10 = Inr (f1, u1)" "loop10 j2 u1 = Inr (f2, u2)"
    "loop10 j3 u2 = Inr (f3, u3)" "run10 [j1, j2, j3] s10 = Inr u3"
    using run10_three [OF assms(2)] by blast
  have b1: "power_mode u1 = rotate_mode (power_mode s10)"
    using loop10_power(1) [OF b(1)] assms(4) by simp
  have "power_mode u3 = rotate_mode (rotate_mode (rotate_mode (power_mode s10)))"
    using loop10_power(1) [OF b(2)] loop10_power(1) [OF b(3)] b1 assms(4) by simp
  then have b3: "power_mode u3 = power_mode s10" by (simp only: rotate_mode_thrice)
  show ?thesis using a(1,4) a1 a3 b(1,4) b1 b3 by simp
qed

theorem press_rotates_witness:
  "(0 \<le> index (setup5 25 60 240) \<and> index (setup5 25 60 240) < 5) \<and>
   (0 \<le> index (setup10 25 60 240) \<and> index (setup10 25 60 240) < 10) \<and>
   (\<exists>ev s'. loop5 \<lparr>pressed = True, dht_temperature = 30, dht_humidity = 50, dht_status = ''OK'',
                    adc_vin = 240, millis_read = 3000, millis_resume = 1000,
                    millis_button = 2000\<rparr> (setup5 25 60 240) = Inr (ev, s') \<and>
             power_mode s' = rotate_mode (power_mode (setup5 25 60 240))) \<and>
   (\<exists>s'. run5 [\<lparr>pressed = True, dht_temperature = 30, dht_humidity = 50, dht_status = ''OK'',
                  adc_vin = 240, millis_read = 3000, millis_resume = 1000, millis_button = 2000\<rparr>,
                \<lparr>pressed = True, dht_temperature = 30, dht_humidity = 50, dht_status = ''OK'',
                  adc_vin = 240, millis_read = 6000, millis_resume = 4000, millis_button = 5000\<rparr>,
                \<lparr>pressed = True, dht_temperature = 30, dht_humidity = 50, dht_status = ''OK'',
                  adc_vin = 240, millis_read = 9000, millis_resume = 7000, millis_button = 8000\<rparr>]
            (setup5 25 60 240) = Inr s' \<and> power_mode s' = power_mode (setup5 25 60 240)) \<and>
   (\<exists>ev s'. loop10 \<lparr>pressed = True, dht_temperature = 30, dht_humidity = 50, dht_status = ''OK'',
                     adc_vin = 240, millis_read = 3000\<rparr> (setup10 25 60 240) = Inr (ev, s') \<and>
             power_mode s' = rotate_mode (power_mode (setup10 25 60 240))) \<and>
   (\<exists>s'. run10 [\<lparr>pressed = True, dht_temperature = 30, dht_humidity = 50, dht_status = ''OK'',
                   adc_vin = 240, millis_read = 3000\<rparr>,
                 \<lparr>pressed = True, dht_temperature = 30, dht_humidity = 50, dht_status = ''OK'',
                   adc_vin = 240, millis_read = 6000\<rparr>,
                 \<lparr>pressed = True, dht_temperature = 30, dht_humidity = 50, dht_status = ''OK'',
                   adc_vin = 240, millis_read = 9000\<rparr>]
            (setup10 25 60 240) = Inr s' \<and> power_mode s' = power_mode (setup10 25 60 240))"
proof -
  have a: "0 \<le> index (setup5 25 60 240) \<and> index (setup5 25 60 240) < 5"
    by (simp add: setup5_def)
  have b: "0 \<le> index (setup10 25 60 240) \<and> index (setup10 25 60 240) < 10"
    by (simp add: setup10_def)
  show ?thesis
    using a b
      press_rotates [OF a b,
        of "\<lparr>pressed = True, dht_temperature = 30, dht_humidity = 50, dht_status = ''OK'',
              adc_vin = 240, millis_read = 3000, millis_resume = 1000, millis_button = 2000\<rparr>"
           "\<lparr>pressed = True, dht_temperature = 30, dht_humidity = 50, dht_status = ''OK'',
              adc_vin = 240, millis_read = 6000, millis_resume = 4000, millis_button = 5000\<rparr>"
           "\<lparr>pressed = True, dht_temperature = 30, dht_humidity = 50, dht_status = ''OK'',
              adc_vin = 240, millis_read = 9000, millis_resume = 7000, millis_button = 8000\<rparr>"
           "\<lparr>pressed = True, dht_temperature = 30, dht_humidity = 50, dht_status = ''OK'',
              adc_vin = 240, millis_read = 3000\<rparr>"
           "\<lparr>pressed = True, dht_temperature = 30, dht_humidity = 50, dht_status = ''OK'',
              adc_vin = 240, millis_read = 6000\<rparr>"
           "\<lparr>pressed = True, dht_temperature = 30, dht_humidity = 50, dht_status = ''OK'',
              adc_vin = 240, millis_read = 9000\<rparr>"]
    by simp
qed

text \<open>
  C5. In every state the five-sample sketch can reach, a pass that saw no press changes
  the power mode exactly when the mode is not High and more than \<open>RESUMETIME\<close>
  milliseconds lie between the clock value recorded at the last mode change and the one
  read at line 239. So the resume timer never fires in mode High and never before the
  timeout has run since the last change. The difference is taken on the 32-bit millisecond
  clock, as the source takes it.
\<close>

theorem auto_resume_guard:
  assumes "reach5 s g" and "\<not> pressed i"
  shows "\<exists>ev s'. loop5 i s = Inr (ev, s') \<and>
           (power_mode s' \<noteq> power_mode s \<longleftrightarrow>
              power_mode s \<noteq> high \<and> RESUMETIME < millis_resume i - g)"
proof -
  obtain ev s' where 1: "loop5 i s = Inr (ev, s')"
    using loop5_total reach5_index [OF assms(1)] by blast
  have "power_mode s' \<noteq> power_mode s \<longleftrightarrow> auto_resume s (millis_resume i)"
    using loop5_changes [OF 1] assms(2) by simp
  also have "\<dots> \<longleftrightarrow> power_mode s \<noteq> high \<and> RESUMETIME < millis_resume i - g"
    by (simp add: auto_resume_def reach5_lastButton [OF assms(1)])
  finally show ?thesis using 1 by blast
qed

theorem auto_resume_guard_witness:
  "reach5 \<lparr>t = [25, 30, 25, 25, 25], h = [60, 50, 60, 60, 60], v = [240, 240, 240, 240, 240],
           power_mode = off, lastRead = 3000, index = 1, fan = 0, led = 0, lastButton = 2000\<rparr>
     2000 \<and>
   (\<exists>ev s'. loop5 \<lparr>pressed = False, dht_temperature = 30, dht_humidity = 50, dht_status = ''OK'',
                    adc_vin = 240, millis_read = 10805000, millis_resume = 10803000,
                    millis_button = 10804000\<rparr>
               \<lparr>t = [25, 30, 25, 25, 25], h = [60, 50, 60, 60, 60], v = [240, 240, 240, 240, 240],
                power_mode = off, lastRead = 3000, index = 1, fan = 0, led = 0,
                lastButton = 2000\<rparr> = Inr (ev, s') \<and>
      power_mode s' \<noteq> off \<and> (RESUMETIME :: ulong) < 10803000 - 2000)"
proof -
  from reach5.pass [OF reach5.boot press_after_setup5]
  have r: "reach5 \<lparr>t = [25, 30, 25, 25, 25], h = [60, 50, 60, 60, 60],
                   v = [240, 240, 240, 240, 240], power_mode = off, lastRead = 3000, index = 1,
                   fan = 0, led = 0, lastButton = 2000\<rparr> 2000"
    by (simp add: setup5_def)
  show ?thesis
    using r auto_resume_guard [OF r,
      of "\<lparr>pressed = False, dht_temperature = 30, dht_humidity = 50, dht_status = ''OK'',
            adc_vin = 240, millis_read = 10805000, millis_resume = 10803000,
            millis_button = 10804000\<rparr>"]
    by (simp add: fw_defs)
qed

text \<open>
  C6, as the sketches have it. The five-sample sketch, the only one with a timestamp and a
  resume timer, sets \<open>lastButton\<close> to the clock on every mode change, whether a press
  or the timer caused it, and on no other pass; the value stamped reaches no other part of
  the state and none of the outputs. The statement that one variant leaves the stamp
  alone on a timer-driven change fails: after a press at start-up that stamps 2000, the
  pass three hours later sees no press, moves the mode from Off to Low and stamps
  10804000.
\<close>

theorem auto_resume_restamps:
  "run5 [\<lparr>pressed = True, dht_temperature = 30, dht_humidity = 50, dht_status = ''OK'',
           adc_vin = 240, millis_read = 3000, millis_resume = 1000, millis_button = 2000\<rparr>]
     (setup5 25 60 240) =
     Inr \<lparr>t = [25, 30, 25, 25, 25], h = [60, 50, 60, 60, 60], v = [240, 240, 240, 240, 240],
          power_mode = off, lastRead = 3000, index = 1, fan = 0, led = 0, lastButton = 2000\<rparr> \<and>
   run5 [\<lparr>pressed = True, dht_temperature = 30, dht_humidity = 50, dht_status = ''OK'',
           adc_vin = 240, millis_read = 3000, millis_resume = 1000, millis_button = 2000\<rparr>,
         \<lparr>pressed = False, dht_temperature = 30, dht_humidity = 50, dht_status = ''OK'',
           adc_vin = 240, millis_read = 10805000, millis_resume = 10803000,
           millis_button = 10804000\<rparr>]
     (setup5 25 60 240) =
     Inr \<lparr>t = [25, 30, 30, 25, 25], h = [60, 50, 50, 60, 60], v = [240, 240, 240, 240, 240],
          power_mode = low, lastRead = 10805000, index = 2, fan = 0, led = 10,
          lastButton = 10804000\<rparr>"
  by (simp add: press_after_setup5 resume_after_press5)

text \<open>
  C6, amended: in the five-sample sketch a pass changes the power mode exactly when it saw
  a press or the resume timer fired, every such pass sets \<open>lastButton\<close> to the clock
  read at line 258 and no other pass touches it, and a pass run with another clock value
  there ends with the same outputs and the same state but for \<open>lastButton\<close>.
\<close>

theorem stamp_on_every_transition:
  assumes "loop5 i s = Inr (ev, s')"
  shows "(power_mode s' \<noteq> power_mode s \<longleftrightarrow> pressed i \<or> auto_resume s (millis_resume i)) \<and>
         lastButton s' = (if power_mode s' \<noteq> power_mode s then millis_button i else lastButton s) \<and>
         (\<forall>b. loop5 (i\<lparr>millis_button := b\<rparr>) s =
                Inr (ev, s'\<lparr>lastButton := (if power_mode s' \<noteq> power_mode s then b
                                          else lastButton s)\<rparr>))"
  using loop5_changes [OF assms] loop5_power(2) [OF assms] loop5_restamp [OF assms]
  by simp

theorem stamp_on_every_transition_witness:
  "loop5 \<lparr>pressed = False, dht_temperature = 30, dht_humidity = 50, dht_status = ''OK'',
          adc_vin = 240, millis_read = 10805000, millis_resume = 10803000,
          millis_button = 10804000\<rparr>
     \<lparr>t = [25, 30, 25, 25, 25], h = [60, 50, 60, 60, 60], v = [240, 240, 240, 240, 240],
      power_mode = off, lastRead = 3000, index = 1, fan = 0, led = 0, lastButton = 2000\<rparr> =
   Inr ([FlashFast 4 255, LedWrite 10, FanWrite 0],
        \<lparr>t = [25, 30, 30, 25, 25], h = [60, 50, 50, 60, 60], v = [240, 240, 240, 240, 240],
         power_mode = low, lastRead = 10805000, index = 2, fan = 0, led = 10,
         lastButton = 10804000\<rparr>) \<and>
   (\<forall>b. loop5 \<lparr>pressed = False, dht_temperature = 30, dht_humidity = 50, dht_status = ''OK'',
                adc_vin = 240, millis_read = 10805000, millis_resume = 10803000,
                millis_button = b\<rparr>
           \<lparr>t = [25, 30, 25, 25, 25], h = [60, 50, 60, 60, 60], v = [240, 240, 240, 240, 240],
            power_mode = off, lastRead = 3000, index = 1, fan = 0, led = 0, lastButton = 2000\<rparr> =
         Inr ([FlashFast 4 255, LedWrite 10, FanWrite 0],
              \<lparr>t = [25, 30, 30, 25, 25], h = [60, 50, 50, 60, 60], v = [240, 240, 240, 240, 240],
               power_mode = low, lastRead = 10805000, index = 2, fan = 0, led = 10,
               lastButton = b\<rparr>))"
  using resume_after_press5 stamp_on_every_transition [OF resume_after_press5] by simp

text \<open>
  C10. In the ten-sample sketch only the button handler writes the power mode: from every
  state the sketch can reach, any number of passes that see no press all run to their end
  and leave the mode as it was. The sketch has no resume timer, so a mode of Off or Low
  chosen by hand stays until the next press.
\<close>

theorem mode_persists10:
  assumes "reach10 s" and "\<forall>i \<in> set is. \<not> pressed i"
  shows "\<exists>s'. run10 is s = Inr s' \<and> power_mode s' = power_mode s"
  using reach10_inv [OF assms(1)] assms(2) by (intro run10_unpressed) simp_all

theorem mode_persists10_witness:
  "reach10 \<lparr>t = [25, 30, 25, 25, 25, 25, 25, 25, 25, 25],
            h = [60, 50, 60, 60, 60, 60, 60, 60, 60, 60],
            v = [240, 240, 240, 240, 240, 240, 240, 240, 240, 240],
            power_mode = off, lastRead = 3000, index = 1, fan = 0, led = 0, button = False\<rparr> \<and>
   (\<exists>s'. run10 [\<lparr>pressed = False, dht_temperature = 30, dht_humidity = 50, dht_status = ''OK'',
                   adc_vin = 240, millis_read = 13000\<rparr>,
                 \<lparr>pressed = False, dht_temperature = 30, dht_humidity = 50,
                   dht_status = ''TIMEOUT'', adc_vin = 240, millis_read = 23000\<rparr>]
            \<lparr>t = [25, 30, 25, 25, 25, 25, 25, 25, 25, 25],
             h = [60, 50, 60, 60, 60, 60, 60, 60, 60, 60],
             v = [240, 240, 240, 240, 240, 240, 240, 240, 240, 240],
             power_mode = off, lastRead = 3000, index = 1, fan = 0, led = 0, button = False\<rparr>
          = Inr s' \<and> power_mode s' = off)"
proof -
  from reach10.boot10 press_after_setup10
  have r: "reach10 \<lparr>t = [25, 30, 25, 25, 25, 25, 25, 25, 25, 25],
              h = [60, 50, 60, 60, 60, 60, 60, 60, 60, 60],
              v = [240, 240, 240, 240, 240, 240, 240, 240, 240, 240],
              power_mode = off, lastRead = 3000, index = 1, fan = 0, led = 0, button = False\<rparr>"
    by (rule reach10.pass10)
  show ?thesis
    using r mode_persists10 [OF r,
      of "[\<lparr>pressed = False, dht_temperature = 30, dht_humidity = 50, dht_status = ''OK'',
             adc_vin = 240, millis_read = 13000\<rparr>,
           \<lparr>pressed = False, dht_temperature = 30, dht_humidity = 50,
             dht_status = ''TIMEOUT'', adc_vin = 240, millis_read = 23000\<rparr>]"]
    by simp
qed

section \<open>Sensor faults\<close>

text \<open>
  C9. When the sensor's status is not OK, the pass stores nothing: the three sample
  arrays and the write index are as before. The pass still runs to its end without a
  fault: it flashes the fault signal (ten flashes in the five-sample sketch, three in the
  ten-sample one) and finishes with the write of the fan duty computed from the samples
  it kept. This holds in both sketches, from every state.
\<close>

theorem invalid_reading_keeps_samples:
  assumes "dht_status i5 \<noteq> ''OK''" and "dht_status i10 \<noteq> ''OK''"
  shows "(\<exists>ev s'. loop5 i5 s5 = Inr (ev, s') \<and> t s' = t s5 \<and> h s' = h s5 \<and> v s' = v s5 \<and>
            index s' = index s5 \<and> (\<exists>p. FlashFast 10 p \<in> set ev) \<and> last ev = FanWrite (fan s')) \<and>
         (\<exists>ev s'. loop10 i10 s10 = Inr (ev, s') \<and> t s' = t s10 \<and> h s' = h s10 \<and> v s' = v s10 \<and>
            index s' = index s10 \<and> (\<exists>p. FlashFast 3 p \<in> set ev) \<and> last ev = FanWrite (fan s'))"
  using loop5_invalid [OF assms(1), of s5] loop10_invalid [OF assms(2), of s10] by simp

theorem invalid_reading_keeps_samples_witness:
  "(\<exists>ev s'. loop5 \<lparr>pressed = False, dht_temperature = 0, dht_humidity = 0,
                    dht_status = ''TIMEOUT'', adc_vin = 240, millis_read = 23000,
                    millis_resume = 21000, millis_button = 22000\<rparr> (setup5 30 60 240) = Inr (ev, s') \<and>
      t s' = t (setup5 30 60 240) \<and> h s' = h (setup5 30 60 240) \<and> v s' = v (setup5 30 60 240) \<and>
      index s' = index (setup5 30 60 240) \<and> (\<exists>p. FlashFast 10 p \<in> set ev) \<and>
      last ev = FanWrite (fan s')) \<and>
   (\<exists>ev s'. loop10 \<lparr>pressed = False, dht_temperature = 0, dht_humidity = 0,
                     dht_status = ''TIMEOUT'', adc_vin = 240, millis_read = 23000\<rparr>
                (setup10 30 60 240) = Inr (ev, s') \<and>
      t s' = t (setup10 30 60 240) \<and> h s' = h (setup10 30 60 240) \<and> v s' = v (setup10 30 60 240) \<and>
      index s' = index (setup10 30 60 240) \<and> (\<exists>p. FlashFast 3 p \<in> set ev) \<and>
      last ev = FanWrite (fan s'))"
  using invalid_reading_keeps_samples
    [of "\<lparr>pressed = False, dht_temperature = 0, dht_humidity = 0,
          dht_status = ''TIMEOUT'', adc_vin = 240, millis_read = 23000,
          millis_resume = 21000, millis_button = 22000\<rparr>"
        "\<lparr>pressed = False, dht_temperature = 0, dht_humidity = 0,
          dht_status = ''TIMEOUT'', adc_vin = 240, millis_read = 23000\<rparr>"
        "setup5 30 60 240" "setup10 30 60 240"]
  by simp

end
